theory Spec2Isabelle
  imports Main "HOL-Library.Multiset"
begin

section \<open>The frontier store and the work queue\<close>

text \<open>
  The crawler of \<^verbatim>\<open>darknet_crawler.py\<close> keeps two pieces of shared state: the SQLite
  table \<^verbatim>\<open>urls (url TEXT PRIMARY KEY, visited INTEGER)\<close> and a \<^verbatim>\<open>queue.Queue\<close>.
  The table is a list of rows, so that the uniqueness of the key is a property to prove
  and not one of the type. The queue is its deque of items together with the counter
  \<^verbatim>\<open>unfinished_tasks\<close> that \<^verbatim>\<open>Queue.join\<close> waits on. The field \<open>fetched\<close> is a
  ghost: the calls of \<^verbatim>\<open>fetch\<close> in call order, each URL with what the call returned
  or raised.
\<close>

datatype error = ValueError

type_synonym row = "string \<times> int"

record crawler =
  urls :: "row list"
  items :: "string list"
  unfinished_tasks :: int
  fetched :: "(string \<times> (error + string)) list"

subsection \<open>The three SQL statements\<close>

definition has_row :: "string \<Rightarrow> row list \<Rightarrow> bool" where
  "has_row url t = (url \<in> set (map fst t))"

text \<open>
  \<^verbatim>\<open>INSERT OR IGNORE INTO urls (url, visited) VALUES (?, 0)\<close>: the new table and the
  cursor's \<^verbatim>\<open>rowcount\<close>.
\<close>

definition insert_or_ignore :: "string \<Rightarrow> row list \<Rightarrow> row list \<times> nat" where
  "insert_or_ignore url t = (if has_row url t then (t, 0) else (t @ [(url, 0)], 1))"

text \<open>\<^verbatim>\<open>UPDATE urls SET visited=1 WHERE url=?\<close>\<close>

definition update_visited :: "string \<Rightarrow> row list \<Rightarrow> row list" where
  "update_visited url t = map (\<lambda>(k, v). if k = url then (k, 1) else (k, v)) t"

text \<open>\<^verbatim>\<open>SELECT visited FROM urls WHERE url=?\<close> followed by \<^verbatim>\<open>fetchone()\<close>\<close>

definition select_visited :: "string \<Rightarrow> row list \<Rightarrow> int option" where
  "select_visited url t = map_of t url"

text \<open>The worker's test \<^verbatim>\<open>result is not None and result[0]\<close>.\<close>

definition is_visited :: "string \<Rightarrow> row list \<Rightarrow> bool" where
  "is_visited url t = (case select_visited url t of None \<Rightarrow> False | Some v \<Rightarrow> v \<noteq> 0)"

subsection \<open>The three queue operations\<close>

definition queue_put :: "string \<Rightarrow> crawler \<Rightarrow> crawler" where
  "queue_put x s = s\<lparr>items := items s @ [x], unfinished_tasks := unfinished_tasks s + 1\<rparr>"

text \<open>\<^verbatim>\<open>Queue.get()\<close> blocks on an empty queue: \<open>None\<close>.\<close>

definition queue_get :: "crawler \<Rightarrow> (string \<times> crawler) option" where
  "queue_get s = (case items s of [] \<Rightarrow> None | x # xs \<Rightarrow> Some (x, s\<lparr>items := xs\<rparr>))"

text \<open>
  \<^verbatim>\<open>Queue.task_done()\<close> raises \<^verbatim>\<open>ValueError\<close> when it is called more often than
  items were put, and leaves the counter as it was.
\<close>

definition task_done :: "crawler \<Rightarrow> error + crawler" where
  "task_done s =
     (let unfinished = unfinished_tasks s - 1
      in if unfinished < 0 then Inl ValueError
         else Inr (s\<lparr>unfinished_tasks := unfinished\<rparr>))"

text \<open>\<^verbatim>\<open>Queue.join()\<close> returns once the counter is zero.\<close>

definition drained :: "crawler \<Rightarrow> bool" where
  "drained s = (unfinished_tasks s = 0)"

subsection \<open>The methods that write the store\<close>

definition add_seed :: "string \<Rightarrow> crawler \<Rightarrow> crawler" where
  "add_seed url s = queue_put url (s\<lparr>urls := fst (insert_or_ignore url (urls s))\<rparr>)"

definition mark_visited :: "string \<Rightarrow> crawler \<Rightarrow> crawler" where
  "mark_visited url s = s\<lparr>urls := update_visited url (urls s)\<rparr>"

text \<open>
  \<^verbatim>\<open>enqueue_new\<close> walks the links it is given; the list is the order in which the
  \<^verbatim>\<open>for\<close> loop meets them.
\<close>

fun enqueue_new :: "string list \<Rightarrow> crawler \<Rightarrow> crawler" where
  "enqueue_new [] s = s"
| "enqueue_new (link # links) s =
     (case insert_or_ignore link (urls s) of
        (t, rowcount) \<Rightarrow>
          enqueue_new links
            (if rowcount > 0 then queue_put link (s\<lparr>urls := t\<rparr>) else s\<lparr>urls := t\<rparr>))"

section \<open>Fetching and link extraction\<close>

text \<open>
  What the transport answers to one request: a response whose status passes
  \<^verbatim>\<open>raise_for_status\<close>, with its text; a response whose status does not; or an exception
  of \<^verbatim>\<open>session.get\<close> (connection error, timeout). With \<^verbatim>\<open>USE_SELENIUM = False\<close>
  the driver is \<^verbatim>\<open>None\<close>; its branch lies in the same \<^verbatim>\<open>try\<close> block.
\<close>

datatype response = Page string | HTTPError | TransportError

text \<open>
  \<^verbatim>\<open>time.sleep(self.delay)\<close> stands before the \<^verbatim>\<open>try\<close> and raises \<^verbatim>\<open>ValueError\<close> on a
  negative delay; everything after it is caught and turned into the empty string.
\<close>

definition fetch :: "int \<Rightarrow> response \<Rightarrow> error + string" where
  "fetch delay resp =
     (if delay < 0 then Inl ValueError
      else Inr (case resp of Page text \<Rightarrow> text | HTTPError \<Rightarrow> [] | TransportError \<Rightarrow> []))"

text \<open>
  \<^verbatim>\<open>parse_links\<close> calls three library functions, which are parameters of the model: the
  \<^verbatim>\<open>href\<close> values of the anchors that BeautifulSoup finds in a page, in document order,
  and \<^verbatim>\<open>urljoin\<close> and \<^verbatim>\<open>urlparse\<close> of \<^verbatim>\<open>urllib.parse\<close>, either of which may raise.
\<close>

record parse_result =
  scheme :: string
  netloc :: string
  path :: string
  params :: string
  query :: string
  fragment :: string

record pylib =
  find_all_a :: "string \<Rightarrow> string list"
  urljoin :: "string \<Rightarrow> string \<Rightarrow> error + string"
  urlparse :: "string \<Rightarrow> error + parse_result"

definition endswith :: "string \<Rightarrow> string \<Rightarrow> bool" where
  "endswith s suffix = (length suffix \<le> length s \<and> drop (length s - length suffix) s = suffix)"

text \<open>The body of the \<^verbatim>\<open>for\<close> loop, with the condition as the source writes it.\<close>

fun parse_links_loop :: "pylib \<Rightarrow> string \<Rightarrow> string list \<Rightarrow> string set \<Rightarrow> error + string set" where
  "parse_links_loop L base_url [] links = Inr links"
| "parse_links_loop L base_url (a # rest) links =
     (case urljoin L base_url a of
        Inl e \<Rightarrow> Inl e
      | Inr href \<Rightarrow>
          (case urlparse L href of
             Inl e \<Rightarrow> Inl e
           | Inr parsed \<Rightarrow>
               parse_links_loop L base_url rest
                 (if (scheme parsed = ''http'' \<or> scheme parsed = ''https'') \<and>
                     (endswith (netloc parsed) ''.onion'' \<or> \<not> endswith (netloc parsed) ''.onion'')
                  then insert href links else links)))"

definition parse_links :: "pylib \<Rightarrow> string \<Rightarrow> string \<Rightarrow> error + string set" where
  "parse_links L html base_url = parse_links_loop L base_url (find_all_a L html) {}"

section \<open>One iteration of the worker\<close>

text \<open>
  What an iteration prints: nothing when it skips a visited URL, the number of links
  after a crawl, the failure of a fetch, or the exception that \<^verbatim>\<open>except Exception\<close>
  caught.
\<close>

datatype report = Skipped | Crawled nat | Failed | Caught error

text \<open>
  The \<^verbatim>\<open>try\<close> block for a URL that \<^verbatim>\<open>queue.get()\<close> returned. \<open>order\<close> is the order
  in which the \<^verbatim>\<open>for\<close> loop of \<^verbatim>\<open>enqueue_new\<close> meets the members of the Python set.
  The state is returned as the block leaves it, also when it raises. What can raise here
  is \<^verbatim>\<open>task_done\<close>, \<^verbatim>\<open>time.sleep\<close> and the library under \<^verbatim>\<open>parse_links\<close>; the
  statements on the connection are taken to succeed (the threads below let them raise).
\<close>

definition try_block ::
  "pylib \<Rightarrow> int \<Rightarrow> (string set \<Rightarrow> string list) \<Rightarrow> response \<Rightarrow> string \<Rightarrow> crawler \<Rightarrow> crawler \<times> report" where
  "try_block L delay order resp url s =
     (if is_visited url (urls s) then
        (case task_done s of Inl e \<Rightarrow> (s, Caught e) | Inr s1 \<Rightarrow> (s1, Skipped))
      else
        (let s1 = s\<lparr>fetched := fetched s @ [(url, fetch delay resp)]\<rparr> in
         case fetch delay resp of
           Inl e \<Rightarrow> (s1, Caught e)
         | Inr html \<Rightarrow>
             if html \<noteq> [] then
               (case parse_links L html url of
                  Inl e \<Rightarrow> (s1, Caught e)
                | Inr links \<Rightarrow>
                    (enqueue_new (order links) (mark_visited url s1), Crawled (card links)))
             else (s1, Failed)))"

text \<open>
  The \<^verbatim>\<open>finally\<close> clause runs after every way out of the \<^verbatim>\<open>try\<close> block, the
  \<^verbatim>\<open>continue\<close> of the skip included. An exception of its \<^verbatim>\<open>task_done\<close> is caught by
  nothing: it ends the thread, and the third component holds it.
\<close>

definition worker_body ::
  "pylib \<Rightarrow> int \<Rightarrow> (string set \<Rightarrow> string list) \<Rightarrow> response \<Rightarrow> string \<Rightarrow> crawler
     \<Rightarrow> crawler \<times> report \<times> error option" where
  "worker_body L delay order resp url s =
     (case try_block L delay order resp url s of
        (s1, rep) \<Rightarrow>
          (case task_done s1 of
             Inl e \<Rightarrow> (s1, rep, Some e)
           | Inr s2 \<Rightarrow> (s2, rep, None)))"

text \<open>One turn of \<^verbatim>\<open>while True\<close>; \<open>None\<close> when \<^verbatim>\<open>queue.get()\<close> blocks.\<close>

definition worker_iteration ::
  "pylib \<Rightarrow> int \<Rightarrow> (string set \<Rightarrow> string list) \<Rightarrow> response \<Rightarrow> crawler
     \<Rightarrow> (crawler \<times> report \<times> error option) option" where
  "worker_iteration L delay order resp s =
     (case queue_get s of
        None \<Rightarrow> None
      | Some (url, s1) \<Rightarrow> Some (worker_body L delay order resp url s1))"

section \<open>A model of \<^verbatim>\<open>urllib.parse\<close>\<close>

text \<open>
  \<^verbatim>\<open>urljoin\<close> and \<^verbatim>\<open>urlparse\<close> as CPython 3.11 defines them in
  \<^verbatim>\<open>Lib/urllib/parse.py\<close>, on strings of bytes. The library is no part of the
  repository; this instance of the parameters serves to evaluate \<^verbatim>\<open>parse_links\<close> on
  concrete pages. Two checks of \<^verbatim>\<open>urlsplit\<close> are left to the parameter \<open>netloc_ok\<close>:
  \<^verbatim>\<open>_check_bracketed_host\<close>, which validates an IPv6 literal, and \<^verbatim>\<open>_checknetloc\<close>,
  which normalises a non-ASCII host. Neither is reached by a host made of ASCII characters
  without brackets.
\<close>

definition uses_relative :: "string list" where
  "uses_relative = ['''', ''ftp'', ''http'', ''gopher'', ''nntp'', ''imap'', ''wais'', ''file'',
     ''https'', ''shttp'', ''mms'', ''prospero'', ''rtsp'', ''rtsps'', ''rtspu'', ''sftp'',
     ''svn'', ''svn+ssh'', ''ws'', ''wss'']"

definition uses_netloc :: "string list" where
  "uses_netloc = ['''', ''ftp'', ''http'', ''gopher'', ''nntp'', ''telnet'', ''imap'', ''wais'',
     ''file'', ''mms'', ''https'', ''shttp'', ''snews'', ''prospero'', ''rtsp'', ''rtsps'',
     ''rtspu'', ''rsync'', ''svn'', ''svn+ssh'', ''sftp'', ''nfs'', ''git'', ''git+ssh'',
     ''ws'', ''wss'']"

definition uses_params :: "string list" where
  "uses_params = ['''', ''ftp'', ''hdl'', ''prospero'', ''http'', ''imap'', ''https'', ''shttp'',
     ''rtsp'', ''rtsps'', ''rtspu'', ''sip'', ''sips'', ''mms'', ''sftp'', ''tel'']"

definition scheme_chars :: string where
  "scheme_chars = ''abcdefghijklmnopqrstuvwxyzABCDEFGHIJKLMNOPQRSTUVWXYZ0123456789+-.''"

definition code :: "char \<Rightarrow> nat" where
  "code c = of_char c"

definition is_ascii_alpha :: "char \<Rightarrow> bool" where
  "is_ascii_alpha c = ((65 \<le> code c \<and> code c \<le> 90) \<or> (97 \<le> code c \<and> code c \<le> 122))"

definition str_lower :: "string \<Rightarrow> string" where
  "str_lower s = map (\<lambda>c. if 65 \<le> code c \<and> code c \<le> 90 then char_of (code c + 32) else c) s"

definition lstrip_c0 :: "string \<Rightarrow> string" where
  "lstrip_c0 s = dropWhile (\<lambda>c. code c \<le> 32) s"

definition strip_c0 :: "string \<Rightarrow> string" where
  "strip_c0 s = rev (lstrip_c0 (rev (lstrip_c0 s)))"

definition remove_unsafe :: "string \<Rightarrow> string" where
  "remove_unsafe s = filter (\<lambda>c. code c \<noteq> 9 \<and> code c \<noteq> 13 \<and> code c \<noteq> 10) s"

text \<open>\<^verbatim>\<open>s.split(c, 1)\<close> for a string that holds \<open>c\<close>.\<close>

definition split_once :: "char \<Rightarrow> string \<Rightarrow> string \<times> string" where
  "split_once c s = (takeWhile (\<lambda>x. x \<noteq> c) s, drop 1 (dropWhile (\<lambda>x. x \<noteq> c) s))"

fun str_split :: "char \<Rightarrow> string \<Rightarrow> string list" where
  "str_split c [] = [[]]"
| "str_split c (x # xs) =
     (if x = c then [] # str_split c xs
      else (case str_split c xs of [] \<Rightarrow> [[x]] | y # ys \<Rightarrow> (x # y) # ys))"

fun str_join :: "string \<Rightarrow> string list \<Rightarrow> string" where
  "str_join sep [] = []"
| "str_join sep [x] = x"
| "str_join sep (x # y # ys) = x @ sep @ str_join sep (y # ys)"

definition splitnetloc :: "string \<Rightarrow> string \<times> string" where
  "splitnetloc url =
     (let is_delim = (\<lambda>c. c = CHR ''/'' \<or> c = CHR ''?'' \<or> c = CHR ''#'');
          rest = drop 2 url
      in (takeWhile (\<lambda>c. \<not> is_delim c) rest, dropWhile (\<lambda>c. \<not> is_delim c) rest))"

definition py_urlsplit ::
  "(string \<Rightarrow> bool) \<Rightarrow> string \<Rightarrow> string \<Rightarrow> error + (string \<times> string \<times> string \<times> string \<times> string)" where
  "py_urlsplit netloc_ok url0 scheme0 =
     (let url1 = remove_unsafe (lstrip_c0 url0);
          scheme1 = remove_unsafe (strip_c0 scheme0);
          pre = takeWhile (\<lambda>c. c \<noteq> CHR '':'') url1;
          (scheme2, url2) =
            (if CHR '':'' \<in> set url1 \<and> pre \<noteq> [] \<and> is_ascii_alpha (hd pre) \<and>
                list_all (\<lambda>c. c \<in> set scheme_chars) pre
             then (str_lower pre, drop (length pre + 1) url1)
             else (scheme1, url1));
          (netloc2, url3) = (if take 2 url2 = ''//'' then splitnetloc url2 else ([], url2));
          (url4, fragment2) = (if CHR ''#'' \<in> set url3 then split_once CHR ''#'' url3 else (url3, []));
          (url5, query2) = (if CHR ''?'' \<in> set url4 then split_once CHR ''?'' url4 else (url4, []))
      in if (CHR ''['' \<in> set netloc2) \<noteq> (CHR '']'' \<in> set netloc2) then Inl ValueError
         else if (CHR ''['' \<in> set netloc2 \<or> \<not> list_all (\<lambda>c. code c < 128) netloc2) \<and> \<not> netloc_ok netloc2
         then Inl ValueError
         else Inr (scheme2, netloc2, url5, query2, fragment2))"

definition splitparams :: "string \<Rightarrow> string \<times> string" where
  "splitparams url =
     (if CHR ''/'' \<in> set url then
        (let k = length url - 1 - length (takeWhile (\<lambda>c. c \<noteq> CHR ''/'') (rev url));
             tail = drop k url
         in if CHR '';'' \<in> set tail
            then (take k url @ takeWhile (\<lambda>c. c \<noteq> CHR '';'') tail,
                  drop 1 (dropWhile (\<lambda>c. c \<noteq> CHR '';'') tail))
            else (url, []))
      else if CHR '';'' \<in> set url then split_once CHR '';'' url
      else (butlast url, url))"

definition py_urlparse :: "(string \<Rightarrow> bool) \<Rightarrow> string \<Rightarrow> string \<Rightarrow> error + parse_result" where
  "py_urlparse netloc_ok url0 scheme0 =
     (case py_urlsplit netloc_ok url0 scheme0 of
        Inl e \<Rightarrow> Inl e
      | Inr (sch, nl, u, q, f) \<Rightarrow>
          (let (u', p) = (if sch \<in> set uses_params \<and> CHR '';'' \<in> set u then splitparams u else (u, []))
           in Inr \<lparr>scheme = sch, netloc = nl, path = u', params = p, query = q, fragment = f\<rparr>))"

definition py_urlunsplit :: "string \<Rightarrow> string \<Rightarrow> string \<Rightarrow> string \<Rightarrow> string \<Rightarrow> string" where
  "py_urlunsplit sch nl url0 q f =
     (let url1 =
            (if nl \<noteq> [] \<or> (sch \<noteq> [] \<and> sch \<in> set uses_netloc) \<or> take 2 url0 = ''//''
             then ''//'' @ nl @ (if url0 \<noteq> [] \<and> take 1 url0 \<noteq> ''/'' then ''/'' @ url0 else url0)
             else url0);
          url2 = (if sch \<noteq> [] then sch @ '':'' @ url1 else url1);
          url3 = (if q \<noteq> [] then url2 @ ''?'' @ q else url2)
      in if f \<noteq> [] then url3 @ ''#'' @ f else url3)"

definition py_urlunparse :: "parse_result \<Rightarrow> string" where
  "py_urlunparse r =
     py_urlunsplit (scheme r) (netloc r)
       (if params r \<noteq> [] then path r @ '';'' @ params r else path r) (query r) (fragment r)"

fun resolve_segments :: "string list \<Rightarrow> string list \<Rightarrow> string list" where
  "resolve_segments [] resolved_path = resolved_path"
| "resolve_segments (seg # segs) resolved_path =
     resolve_segments segs
       (if seg = ''..'' then butlast resolved_path
        else if seg = ''.'' then resolved_path
        else resolved_path @ [seg])"

definition py_urljoin :: "(string \<Rightarrow> bool) \<Rightarrow> string \<Rightarrow> string \<Rightarrow> error + string" where
  "py_urljoin netloc_ok base url0 =
     (if base = [] then Inr url0
      else if url0 = [] then Inr base
      else
        (case py_urlparse netloc_ok base [] of
           Inl e \<Rightarrow> Inl e
         | Inr b \<Rightarrow>
             (case py_urlparse netloc_ok url0 (scheme b) of
                Inl e \<Rightarrow> Inl e
              | Inr r \<Rightarrow>
                  if scheme r \<noteq> scheme b \<or> scheme r \<notin> set uses_relative then Inr url0
                  else if scheme r \<in> set uses_netloc \<and> netloc r \<noteq> [] then Inr (py_urlunparse r)
                  else
                    (let nl = (if scheme r \<in> set uses_netloc then netloc b else netloc r) in
                     if path r = [] \<and> params r = [] then
                       Inr (py_urlunparse
                             (r\<lparr>netloc := nl, path := path b, params := params b,
                                query := (if query r = [] then query b else query r)\<rparr>))
                     else
                       (let parts = str_split CHR ''/'' (path b);
                            base_parts = (if last parts \<noteq> [] then butlast parts else parts);
                            segments =
                              (if take 1 (path r) = ''/'' then str_split CHR ''/'' (path r)
                               else (case base_parts @ str_split CHR ''/'' (path r) of
                                       x # y # zs \<Rightarrow>
                                         x # filter (\<lambda>seg. seg \<noteq> []) (butlast (y # zs)) @ [last (y # zs)]
                                     | segs \<Rightarrow> segs));
                            resolved_path =
                              resolve_segments segments [] @
                                (if last segments = ''.'' \<or> last segments = ''..'' then [[]] else []);
                            joined = str_join ''/'' resolved_path
                        in Inr (py_urlunparse
                                 (r\<lparr>netloc := nl, path := (if joined = [] then ''/'' else joined)\<rparr>)))))))"

definition cpython :: "(string \<Rightarrow> bool) \<Rightarrow> (string \<Rightarrow> string list) \<Rightarrow> pylib" where
  "cpython netloc_ok anchors =
     \<lparr>find_all_a = anchors, urljoin = py_urljoin netloc_ok,
      urlparse = (\<lambda>href. py_urlparse netloc_ok href [])\<rparr>"

section \<open>Callers serialised by the lock\<close>

text \<open>
  Every \<^verbatim>\<open>INSERT OR IGNORE\<close> of the crawler runs under \<^verbatim>\<open>self.lock\<close>, so the
  statements of concurrent callers take effect one after the other. For the URLs that
  the callers insert, in the order in which they get the lock, the \<^verbatim>\<open>rowcount\<close> that
  each caller reads.
\<close>

fun insert_rowcounts :: "string list \<Rightarrow> row list \<Rightarrow> nat list" where
  "insert_rowcounts [] t = []"
| "insert_rowcounts (url # rest) t =
     (case insert_or_ignore url t of (t', rowcount) \<Rightarrow> rowcount # insert_rowcounts rest t')"

section \<open>The worker threads\<close>

text \<open>
  \<^verbatim>\<open>crawl\<close> starts \<open>T\<close> threads that run \<^verbatim>\<open>worker\<close> on the shared table and queue.
  A thread is at one of the following places of the loop. Between two places it
  performs one statement on the shared state: one queue operation, one SQL statement, or
  one call of \<^verbatim>\<open>fetch\<close> together with the \<^verbatim>\<open>parse_links\<close> that follows it, which
  touches nothing shared.
\<close>

datatype place =
    Idle
  | Checking string
  | Skipping string
  | Fetching string
  | Marking string "string list"
  | Entering string "string list"
  | Looping string "string list"
  | Putting string string "string list"
  | Finishing string
  | Dead

text \<open>
  \<open>Idle\<close>: at \<^verbatim>\<open>queue.get()\<close>. \<open>Checking url\<close>: before the \<^verbatim>\<open>SELECT\<close>.
  \<open>Skipping url\<close>: the URL is visited, before the \<^verbatim>\<open>task_done\<close> of that branch.
  \<open>Fetching url\<close>: before \<^verbatim>\<open>fetch\<close>. \<open>Marking url links\<close>: before
  \<^verbatim>\<open>mark_visited\<close>. \<open>Entering url links\<close>: before \<^verbatim>\<open>enqueue_new\<close> takes the lock.
  \<open>Looping url links\<close>: in the loop of \<^verbatim>\<open>enqueue_new\<close>, holding the lock, with the
  links still to come. \<open>Putting url link links\<close>: \<^verbatim>\<open>rowcount > 0\<close>, before
  \<^verbatim>\<open>queue.put(link)\<close>. \<open>Finishing url\<close>: before the \<^verbatim>\<open>task_done\<close> of \<^verbatim>\<open>finally\<close>.
  \<open>Dead\<close>: an exception left the loop.
\<close>

record system =
  shared :: crawler
  lock :: bool
  threads :: "place list"

definition at_place :: "system \<Rightarrow> nat \<Rightarrow> place \<Rightarrow> bool" where
  "at_place \<sigma> i p = (i < length (threads \<sigma>) \<and> threads \<sigma> ! i = p)"

definition goto :: "system \<Rightarrow> nat \<Rightarrow> place \<Rightarrow> crawler \<Rightarrow> system" where
  "goto \<sigma> i p s = \<sigma>\<lparr>shared := s, threads := (threads \<sigma>)[i := p]\<rparr>"

text \<open>
  One step of one thread. The response of the transport and the order in which the loop
  of \<^verbatim>\<open>enqueue_new\<close> meets the members of the set of links are chosen freely. The rules
  \<open>raise\<close> and \<open>raise_locked\<close> are the exceptions that a statement on the connection can
  raise and \<^verbatim>\<open>except Exception\<close> catches; leaving a \<^verbatim>\<open>with self.lock\<close> block frees the
  lock.
\<close>

inductive step :: "pylib \<Rightarrow> int \<Rightarrow> system \<Rightarrow> system \<Rightarrow> bool" for L :: pylib and delay :: int where
  get:
    "\<lbrakk>at_place \<sigma> i Idle; queue_get (shared \<sigma>) = Some (url, s')\<rbrakk>
     \<Longrightarrow> step L delay \<sigma> (goto \<sigma> i (Checking url) s')"
| visited:
    "\<lbrakk>at_place \<sigma> i (Checking url); is_visited url (urls (shared \<sigma>))\<rbrakk>
     \<Longrightarrow> step L delay \<sigma> (goto \<sigma> i (Skipping url) (shared \<sigma>))"
| unvisited:
    "\<lbrakk>at_place \<sigma> i (Checking url); \<not> is_visited url (urls (shared \<sigma>))\<rbrakk>
     \<Longrightarrow> step L delay \<sigma> (goto \<sigma> i (Fetching url) (shared \<sigma>))"
| skip_done:
    "\<lbrakk>at_place \<sigma> i (Skipping url); task_done (shared \<sigma>) = Inr s'\<rbrakk>
     \<Longrightarrow> step L delay \<sigma> (goto \<sigma> i (Finishing url) s')"
| skip_raise:
    "\<lbrakk>at_place \<sigma> i (Skipping url); task_done (shared \<sigma>) = Inl e\<rbrakk>
     \<Longrightarrow> step L delay \<sigma> (goto \<sigma> i (Finishing url) (shared \<sigma>))"
| fetch_links:
    "\<lbrakk>at_place \<sigma> i (Fetching url); fetch delay resp = Inr html; html \<noteq> [];
      parse_links L html url = Inr links; set ls = links; distinct ls\<rbrakk>
     \<Longrightarrow> step L delay \<sigma>
           (goto \<sigma> i (Marking url ls)
              ((shared \<sigma>)\<lparr>fetched := fetched (shared \<sigma>) @ [(url, fetch delay resp)]\<rparr>))"
| fetch_none:
    "\<lbrakk>at_place \<sigma> i (Fetching url);
      fetch delay resp = Inl e \<or> fetch delay resp = Inr [] \<or>
      (\<exists>html. fetch delay resp = Inr html \<and> parse_links L html url = Inl e)\<rbrakk>
     \<Longrightarrow> step L delay \<sigma>
           (goto \<sigma> i (Finishing url)
              ((shared \<sigma>)\<lparr>fetched := fetched (shared \<sigma>) @ [(url, fetch delay resp)]\<rparr>))"
| mark:
    "\<lbrakk>at_place \<sigma> i (Marking url ls); \<not> lock \<sigma>\<rbrakk>
     \<Longrightarrow> step L delay \<sigma> (goto \<sigma> i (Entering url ls) (mark_visited url (shared \<sigma>)))"
| acquire:
    "\<lbrakk>at_place \<sigma> i (Entering url ls); \<not> lock \<sigma>\<rbrakk>
     \<Longrightarrow> step L delay \<sigma> ((goto \<sigma> i (Looping url ls) (shared \<sigma>))\<lparr>lock := True\<rparr>)"
| insert_new:
    "\<lbrakk>at_place \<sigma> i (Looping url (link # ls));
      insert_or_ignore link (urls (shared \<sigma>)) = (t, rowcount); rowcount > 0\<rbrakk>
     \<Longrightarrow> step L delay \<sigma> (goto \<sigma> i (Putting url link ls) ((shared \<sigma>)\<lparr>urls := t\<rparr>))"
| insert_ignored:
    "\<lbrakk>at_place \<sigma> i (Looping url (link # ls));
      insert_or_ignore link (urls (shared \<sigma>)) = (t, rowcount); \<not> rowcount > 0\<rbrakk>
     \<Longrightarrow> step L delay \<sigma> (goto \<sigma> i (Looping url ls) ((shared \<sigma>)\<lparr>urls := t\<rparr>))"
| put:
    "at_place \<sigma> i (Putting url link ls)
     \<Longrightarrow> step L delay \<sigma> (goto \<sigma> i (Looping url ls) (queue_put link (shared \<sigma>)))"
| release:
    "at_place \<sigma> i (Looping url [])
     \<Longrightarrow> step L delay \<sigma> ((goto \<sigma> i (Finishing url) (shared \<sigma>))\<lparr>lock := False\<rparr>)"
| raise:
    "\<lbrakk>at_place \<sigma> i p; p = Checking url \<or> p = Marking url ls \<or> p = Entering url ls\<rbrakk>
     \<Longrightarrow> step L delay \<sigma> (goto \<sigma> i (Finishing url) (shared \<sigma>))"
| raise_locked:
    "\<lbrakk>at_place \<sigma> i p; p = Looping url ls \<or> p = Putting url link ls\<rbrakk>
     \<Longrightarrow> step L delay \<sigma> ((goto \<sigma> i (Finishing url) (shared \<sigma>))\<lparr>lock := False\<rparr>)"
| finish:
    "\<lbrakk>at_place \<sigma> i (Finishing url); task_done (shared \<sigma>) = Inr s'\<rbrakk>
     \<Longrightarrow> step L delay \<sigma> (goto \<sigma> i Idle s')"
| die:
    "\<lbrakk>at_place \<sigma> i (Finishing url); task_done (shared \<sigma>) = Inl e\<rbrakk>
     \<Longrightarrow> step L delay \<sigma> (goto \<sigma> i Dead (shared \<sigma>))"

text \<open>
  A run: \<^verbatim>\<open>__init__\<close> opens the table, which may hold the rows of an earlier run, and makes
  an empty queue; \<^verbatim>\<open>add_seed\<close> is called once; \<^verbatim>\<open>crawl\<close> starts \<open>T\<close> threads.
\<close>

definition opened :: "row list \<Rightarrow> crawler" where
  "opened t = \<lparr>urls = t, items = [], unfinished_tasks = 0, fetched = []\<rparr>"

definition start :: "nat \<Rightarrow> row list \<Rightarrow> string \<Rightarrow> system" where
  "start T t seed = \<lparr>shared = add_seed seed (opened t), lock = False, threads = replicate T Idle\<rparr>"

definition run :: "pylib \<Rightarrow> int \<Rightarrow> nat \<Rightarrow> row list \<Rightarrow> string \<Rightarrow> system \<Rightarrow> bool" where
  "run L delay T t seed \<sigma> = (step L delay)\<^sup>*\<^sup>* (start T t seed) \<sigma>"

text \<open>
  The same steps as a function of a schedule, to run the threads on concrete inputs: an
  event names the thread that moves and what the environment chooses for it.
\<close>

datatype choice = Proceed | Answer response "string list" | Exception

fun next_step :: "pylib \<Rightarrow> int \<Rightarrow> system \<Rightarrow> nat \<Rightarrow> place \<Rightarrow> choice \<Rightarrow> system option" where
  "next_step L delay \<sigma> i Idle Proceed =
     (case queue_get (shared \<sigma>) of
        None \<Rightarrow> None
      | Some (url, s') \<Rightarrow> Some (goto \<sigma> i (Checking url) s'))"
| "next_step L delay \<sigma> i (Checking url) Proceed =
     Some (goto \<sigma> i (if is_visited url (urls (shared \<sigma>)) then Skipping url else Fetching url)
             (shared \<sigma>))"
| "next_step L delay \<sigma> i (Skipping url) Proceed =
     (case task_done (shared \<sigma>) of
        Inl e \<Rightarrow> Some (goto \<sigma> i (Finishing url) (shared \<sigma>))
      | Inr s' \<Rightarrow> Some (goto \<sigma> i (Finishing url) s'))"
| "next_step L delay \<sigma> i (Fetching url) (Answer resp ls) =
     (let s' = (shared \<sigma>)\<lparr>fetched := fetched (shared \<sigma>) @ [(url, fetch delay resp)]\<rparr> in
      case fetch delay resp of
        Inl e \<Rightarrow> Some (goto \<sigma> i (Finishing url) s')
      | Inr html \<Rightarrow>
          if html = [] then Some (goto \<sigma> i (Finishing url) s')
          else
            (case parse_links L html url of
               Inl e \<Rightarrow> Some (goto \<sigma> i (Finishing url) s')
             | Inr links \<Rightarrow>
                 if set ls = links \<and> distinct ls then Some (goto \<sigma> i (Marking url ls) s')
                 else None))"
| "next_step L delay \<sigma> i (Marking url ls) Proceed =
     (if lock \<sigma> then None
      else Some (goto \<sigma> i (Entering url ls) (mark_visited url (shared \<sigma>))))"
| "next_step L delay \<sigma> i (Entering url ls) Proceed =
     (if lock \<sigma> then None
      else Some ((goto \<sigma> i (Looping url ls) (shared \<sigma>))\<lparr>lock := True\<rparr>))"
| "next_step L delay \<sigma> i (Looping url []) Proceed =
     Some ((goto \<sigma> i (Finishing url) (shared \<sigma>))\<lparr>lock := False\<rparr>)"
| "next_step L delay \<sigma> i (Looping url (link # ls)) Proceed =
     (case insert_or_ignore link (urls (shared \<sigma>)) of
        (t, rowcount) \<Rightarrow>
          Some (goto \<sigma> i (if rowcount > 0 then Putting url link ls else Looping url ls)
                  ((shared \<sigma>)\<lparr>urls := t\<rparr>)))"
| "next_step L delay \<sigma> i (Putting url link ls) Proceed =
     Some (goto \<sigma> i (Looping url ls) (queue_put link (shared \<sigma>)))"
| "next_step L delay \<sigma> i (Finishing url) Proceed =
     (case task_done (shared \<sigma>) of
        Inl e \<Rightarrow> Some (goto \<sigma> i Dead (shared \<sigma>))
      | Inr s' \<Rightarrow> Some (goto \<sigma> i Idle s'))"
| "next_step L delay \<sigma> i (Checking url) Exception = Some (goto \<sigma> i (Finishing url) (shared \<sigma>))"
| "next_step L delay \<sigma> i (Marking url ls) Exception = Some (goto \<sigma> i (Finishing url) (shared \<sigma>))"
| "next_step L delay \<sigma> i (Entering url ls) Exception = Some (goto \<sigma> i (Finishing url) (shared \<sigma>))"
| "next_step L delay \<sigma> i (Looping url ls) Exception =
     Some ((goto \<sigma> i (Finishing url) (shared \<sigma>))\<lparr>lock := False\<rparr>)"
| "next_step L delay \<sigma> i (Putting url link ls) Exception =
     Some ((goto \<sigma> i (Finishing url) (shared \<sigma>))\<lparr>lock := False\<rparr>)"
| "next_step L delay \<sigma> i p c = None"

definition fire :: "pylib \<Rightarrow> int \<Rightarrow> nat \<times> choice \<Rightarrow> system \<Rightarrow> system option" where
  "fire L delay ev \<sigma> =
     (if fst ev < length (threads \<sigma>)
      then next_step L delay \<sigma> (fst ev) (threads \<sigma> ! fst ev) (snd ev) else None)"

fun schedule :: "pylib \<Rightarrow> int \<Rightarrow> (nat \<times> choice) list \<Rightarrow> system \<Rightarrow> system option" where
  "schedule L delay [] \<sigma> = Some \<sigma>"
| "schedule L delay (ev # evs) \<sigma> =
     (case fire L delay ev \<sigma> of None \<Rightarrow> None | Some \<sigma>' \<Rightarrow> schedule L delay evs \<sigma>')"

text \<open>The URLs that a thread holds and has not yet handed to \<^verbatim>\<open>fetch\<close> or to the queue.\<close>

fun holds :: "place \<Rightarrow> string multiset" where
  "holds (Checking url) = {#url#}"
| "holds (Skipping url) = {#url#}"
| "holds (Fetching url) = {#url#}"
| "holds (Putting url link ls) = {#link#}"
| "holds p = {#}"

text \<open>Every URL that was fetched, is queued or is held by a thread, with its multiplicity.\<close>

definition claimed :: "system \<Rightarrow> string multiset" where
  "claimed \<sigma> =
     mset (map fst (fetched (shared \<sigma>))) + mset (items (shared \<sigma>)) +
     sum_list (map holds (threads \<sigma>))"

text \<open>
  The invariant of a run: no URL is claimed twice, and every claimed URL has its row. A
  step either gives up or passes on claims, or it inserts a row for a URL that had none and
  claims that URL.
\<close>

definition unique_claims :: "system \<Rightarrow> bool" where
  "unique_claims \<sigma> =
     ((\<forall>u. count (claimed \<sigma>) u \<le> 1) \<and> (\<forall>u. u \<in># claimed \<sigma> \<longrightarrow> has_row u (urls (shared \<sigma>))))"

definition grows :: "system \<Rightarrow> system \<Rightarrow> bool" where
  "grows \<sigma> \<sigma>' =
     ((claimed \<sigma>' \<subseteq># claimed \<sigma> \<or>
       (\<exists>l. claimed \<sigma>' = add_mset l (claimed \<sigma>) \<and> \<not> has_row l (urls (shared \<sigma>)) \<and>
            has_row l (urls (shared \<sigma>')))) \<and>
      (\<forall>u. has_row u (urls (shared \<sigma>)) \<longrightarrow> has_row u (urls (shared \<sigma>'))))"


section \<open>A page, a library and a schedule to run the model on\<close>

text \<open>
  A scanner for pages that write each anchor as \<^verbatim>\<open><a href="..."\<close> stands for
  BeautifulSoup, and \<open>any_host\<close> for the two host checks of \<^verbatim>\<open>urlsplit\<close>, which the
  hosts below do not reach. The page is the one of the extractor example with a link to a
  fragment added. In the schedule two threads crawl the seed and fail to fetch its first
  link.
\<close>

fun anchors_of :: "string \<Rightarrow> string list" where
  "anchors_of [] = []"
| "anchors_of (c # cs) =
     (if take 9 (c # cs) = ''<a href='' @ [CHR 0x22]
      then takeWhile (\<lambda>x. x \<noteq> CHR 0x22) (drop 9 (c # cs)) # anchors_of cs
      else anchors_of cs)"

definition any_host :: "string \<Rightarrow> bool" where
  "any_host host = True"

definition example_lib :: pylib where
  "example_lib = cpython any_host anchors_of"

definition example_page :: string where
  "example_page =
     ''<a href='' @ [CHR 0x22] @ ''/p1'' @ [CHR 0x22] @ ''>one</a> '' @
     ''<a href='' @ [CHR 0x22] @ ''http://other.onion/p2'' @ [CHR 0x22] @ ''>two</a> '' @
     ''<a href='' @ [CHR 0x22] @ ''#frag'' @ [CHR 0x22] @ ''>top</a> '' @
     ''<a href='' @ [CHR 0x22] @ ''https://example.com/'' @ [CHR 0x22] @ ''>out</a> '' @
     ''<a href='' @ [CHR 0x22] @ ''mailto:a@x.onion'' @ [CHR 0x22] @ ''>mail</a> '' @
     ''<a href='' @ [CHR 0x22] @ ''/p1'' @ [CHR 0x22] @ ''>again</a>''"

text \<open>An order in which the loop of \<^verbatim>\<open>enqueue_new\<close> may meet the links of that page.\<close>

definition example_order :: "string set \<Rightarrow> string list" where
  "example_order links =
     filter (\<lambda>link. link \<in> links)
       [''http://x.onion/p1'', ''http://other.onion/p2'', ''http://x.onion/#frag'',
        ''https://example.com/'']"

definition example_schedule :: "(nat \<times> choice) list" where
  "example_schedule =
     [(0, Proceed), (0, Proceed),
      (0, Answer (Page example_page)
            [''http://x.onion/p1'', ''http://other.onion/p2'', ''http://x.onion/#frag'',
             ''https://example.com/'']),
      (0, Proceed), (0, Proceed), (0, Proceed), (0, Proceed), (1, Proceed), (0, Proceed),
      (1, Proceed), (0, Proceed), (1, Answer HTTPError []), (0, Proceed), (0, Proceed),
      (0, Proceed), (0, Proceed), (0, Proceed), (1, Proceed), (0, Proceed)]"

definition example_final :: system where
  "example_final =
     \<lparr>shared =
        \<lparr>urls = [(''http://x.onion/'', 1), (''http://x.onion/p1'', 0),
                 (''http://other.onion/p2'', 0), (''http://x.onion/#frag'', 0),
                 (''https://example.com/'', 0)],
         items = [''http://other.onion/p2'', ''http://x.onion/#frag'', ''https://example.com/''],
         unfinished_tasks = 3,
         fetched = [(''http://x.onion/'', Inr example_page), (''http://x.onion/p1'', Inr [])]\<rparr>,
      lock = False, threads = [Idle, Idle]\<rparr>"

text \<open>
  A store in which the seed is known and one more URL is visited, with the seed popped from
  the queue; what one iteration of the worker makes of it when the seed's page is the
  example page, and when the fetch fails; and the threads after the first three steps of
  the schedule.
\<close>

definition example_crawler :: crawler where
  "example_crawler =
     \<lparr>urls = [(''http://x.onion/'', 0), (''http://other.onion/p2'', 1)], items = [],
      unfinished_tasks = 1, fetched = []\<rparr>"

definition example_crawled :: crawler where
  "example_crawled =
     \<lparr>urls = [(''http://x.onion/'', 1), (''http://other.onion/p2'', 1), (''http://x.onion/p1'', 0),
              (''http://x.onion/#frag'', 0), (''https://example.com/'', 0)],
      items = [''http://x.onion/p1'', ''http://x.onion/#frag'', ''https://example.com/''],
      unfinished_tasks = 3,
      fetched = [(''http://x.onion/'', Inr example_page)]\<rparr>"





section \<open>Properties of the store, the queue and the methods\<close>

lemma has_row_select: "has_row u t = (select_visited u t \<noteq> None)"
  by (simp add: has_row_def select_visited_def map_of_eq_None_iff)

lemma map_fst_update_visited: "map fst (update_visited url t) = map fst t"
  by (induction t) (auto simp: update_visited_def)

lemma has_row_update_visited: "has_row u (update_visited url t) = has_row u t"
  by (simp add: has_row_def map_fst_update_visited)

lemma has_row_insert: "has_row u (fst (insert_or_ignore v t)) = (u = v \<or> has_row u t)"
  by (auto simp: insert_or_ignore_def has_row_def)

lemma distinct_insert:
  "distinct (map fst t) \<Longrightarrow> distinct (map fst (fst (insert_or_ignore v t)))"
  by (auto simp: insert_or_ignore_def has_row_def)

lemma select_visited_insert:
  "select_visited u (fst (insert_or_ignore v t)) =
     (if has_row u t then select_visited u t else if u = v then Some 0 else None)"
proof (cases "has_row v t")
  case True
  then show ?thesis by (auto simp: insert_or_ignore_def has_row_select)
next
  case False
  then show ?thesis
    by (cases "select_visited u t")
       (auto simp: insert_or_ignore_def has_row_select select_visited_def map_add_def)
qed

lemma is_visited_insert: "is_visited u (fst (insert_or_ignore v t)) = is_visited u t"
  by (cases "select_visited u t")
     (auto simp: is_visited_def select_visited_insert has_row_select)

lemma select_visited_update:
  "select_visited u (update_visited v t) =
     (if u = v then (if has_row u t then Some 1 else None) else select_visited u t)"
  by (induction t) (force simp: update_visited_def select_visited_def has_row_def)+

lemma is_visited_update:
  "is_visited u (update_visited v t) = (is_visited u t \<or> (u = v \<and> has_row u t))"
  by (cases "select_visited u t")
     (auto simp: is_visited_def select_visited_update has_row_select)


lemma enqueue_new_Cons:
  "enqueue_new (l # ls) s =
     enqueue_new ls (if has_row l (urls s) then s
                     else queue_put l (s\<lparr>urls := urls s @ [(l, 0)]\<rparr>))"
  by (simp add: insert_or_ignore_def)

lemma has_row_enqueue_new:
  "has_row u (urls (enqueue_new ls s)) = (u \<in> set ls \<or> has_row u (urls s))"
proof (induction ls arbitrary: s)
  case Nil
  show ?case by simp
next
  case (Cons l ls)
  show ?case
    unfolding enqueue_new_Cons Cons.IH
    by (auto simp: queue_put_def has_row_def)
qed

lemma distinct_enqueue_new:
  "distinct (map fst (urls s)) \<Longrightarrow> distinct (map fst (urls (enqueue_new ls s)))"
proof (induction ls arbitrary: s)
  case Nil
  then show ?case by simp
next
  case (Cons l ls)
  show ?case
    unfolding enqueue_new_Cons
    by (rule Cons.IH) (use Cons.prems in \<open>auto simp: queue_put_def has_row_def\<close>)
qed

lemma select_visited_append_new:
  "select_visited u (t @ [(l, 0)]) =
     (if has_row u t then select_visited u t else if u = l then Some 0 else None)"
  by (cases "select_visited u t")
     (auto simp: has_row_select select_visited_def map_add_def)

lemma select_visited_enqueue_new:
  "select_visited u (urls (enqueue_new ls s)) =
     (if has_row u (urls s) then select_visited u (urls s)
      else if u \<in> set ls then Some 0 else None)"
proof (induction ls arbitrary: s)
  case Nil
  show ?case by (simp add: has_row_select)
next
  case (Cons l ls)
  show ?case
    unfolding enqueue_new_Cons Cons.IH
    by (auto simp: queue_put_def select_visited_append_new has_row_def)
qed

lemma is_visited_enqueue_new:
  "is_visited u (urls (enqueue_new ls s)) = is_visited u (urls s)"
  by (auto simp: is_visited_def select_visited_enqueue_new has_row_select)



lemma fetched_enqueue_new: "fetched (enqueue_new ls s) = fetched s"
proof (induction ls arbitrary: s)
  case Nil
  show ?case by simp
next
  case (Cons l ls)
  show ?case unfolding enqueue_new_Cons Cons.IH by (simp add: queue_put_def)
qed

section \<open>Properties of the threads\<close>

lemma holds_update:
  "i < length ts \<Longrightarrow>
   sum_list (map holds (ts[i := p])) + holds (ts ! i) = sum_list (map holds ts) + holds p"
proof (induction ts arbitrary: i)
  case Nil
  then show ?case by simp
next
  case (Cons t ts)
  show ?case
  proof (cases i)
    case 0
    then show ?thesis by simp
  next
    case (Suc j)
    with Cons.prems have "j < length ts" by simp
    from Cons.IH[OF this] Suc show ?thesis by (simp add: ac_simps)
  qed
qed

lemma claimed_goto:
  assumes "at_place \<sigma> i p"
  shows "claimed (goto \<sigma> i q s) + holds p + mset (map fst (fetched (shared \<sigma>))) + mset (items (shared \<sigma>))
       = claimed \<sigma> + holds q + mset (map fst (fetched s)) + mset (items s)"
proof -
  from assms have i: "i < length (threads \<sigma>)" and p: "threads \<sigma> ! i = p"
    by (simp_all add: at_place_def)
  from holds_update[OF i, of q] p show ?thesis
    by (simp add: claimed_def goto_def ac_simps)
qed

lemma claimed_lock [simp]: "claimed (\<sigma>\<lparr>lock := b\<rparr>) = claimed \<sigma>"
  by (simp add: claimed_def)

lemma shared_goto [simp]: "shared (goto \<sigma> i p s) = s"
  by (simp add: goto_def)

lemma step_grows: "step L delay \<sigma> \<sigma>' \<Longrightarrow> grows \<sigma> \<sigma>'"
proof (induction rule: step.induct)
  case (get \<sigma> i url s')
  from get(2) have "items (shared \<sigma>) = url # items s'" "fetched s' = fetched (shared \<sigma>)" "urls s' = urls (shared \<sigma>)"
    by (auto simp: queue_get_def split: list.splits)
  with claimed_goto[OF get(1), of "Checking url" s'] show ?case
    by (simp add: grows_def)
next
  case (visited \<sigma> i url)
  from claimed_goto[OF visited(1), of "Skipping url" "shared \<sigma>"] show ?case by (simp add: grows_def)
next
  case (unvisited \<sigma> i url)
  from claimed_goto[OF unvisited(1), of "Fetching url" "shared \<sigma>"] show ?case by (simp add: grows_def)
next
  case (skip_done \<sigma> i url s')
  from skip_done(2) have "items s' = items (shared \<sigma>)" "fetched s' = fetched (shared \<sigma>)" "urls s' = urls (shared \<sigma>)"
    by (auto simp: task_done_def Let_def split: if_splits)
  with claimed_goto[OF skip_done(1), of "Finishing url" s'] show ?case
    by (simp add: grows_def) (metis mset_subset_eq_add_left add_mset_add_single)
next
  case (skip_raise \<sigma> i url e)
  from claimed_goto[OF skip_raise(1), of "Finishing url" "shared \<sigma>"] show ?case
    by (simp add: grows_def) (metis mset_subset_eq_add_left add_mset_add_single)
next
  case (fetch_links \<sigma> i url resp html links ls)
  from claimed_goto[OF fetch_links(1), of "Marking url ls" "(shared \<sigma>)\<lparr>fetched := fetched (shared \<sigma>) @ [(url, fetch delay resp)]\<rparr>"]
  show ?case by (simp add: grows_def)
next
  case (fetch_none \<sigma> i url resp e)
  from claimed_goto[OF fetch_none(1), of "Finishing url" "(shared \<sigma>)\<lparr>fetched := fetched (shared \<sigma>) @ [(url, fetch delay resp)]\<rparr>"]
  show ?case by (simp add: grows_def)
next
  case (mark \<sigma> i url ls)
  from claimed_goto[OF mark(1), of "Entering url ls" "mark_visited url (shared \<sigma>)"]
  show ?case by (simp add: grows_def mark_visited_def has_row_update_visited)
next
  case (acquire \<sigma> i url ls)
  from claimed_goto[OF acquire(1), of "Looping url ls" "shared \<sigma>"] show ?case by (simp add: grows_def)
next
  case (insert_new \<sigma> i url link ls t rowcount)
  from insert_new(2,3) have t: "t = urls (shared \<sigma>) @ [(link, 0)]" and new: "\<not> has_row link (urls (shared \<sigma>))"
    by (auto simp: insert_or_ignore_def split: if_splits)
  from claimed_goto[OF insert_new(1), of "Putting url link ls" "(shared \<sigma>)\<lparr>urls := t\<rparr>"] t new
  show ?case by (auto simp add: grows_def has_row_def)
next
  case (insert_ignored \<sigma> i url link ls t rowcount)
  from insert_ignored(2,3) have t: "t = urls (shared \<sigma>)"
    by (auto simp: insert_or_ignore_def split: if_splits)
  from claimed_goto[OF insert_ignored(1), of "Looping url ls" "(shared \<sigma>)\<lparr>urls := t\<rparr>"] t
  show ?case by (simp add: grows_def)
next
  case (put \<sigma> i url link ls)
  from claimed_goto[OF put(1), of "Looping url ls" "queue_put link (shared \<sigma>)"]
  show ?case by (simp add: grows_def queue_put_def)
next
  case (release \<sigma> i url)
  from claimed_goto[OF release(1), of "Finishing url" "shared \<sigma>"] show ?case by (simp add: grows_def)
next
  case (raise \<sigma> i p url ls)
  from claimed_goto[OF raise(1), of "Finishing url" "shared \<sigma>"] raise(2) show ?case
    by (auto simp add: grows_def) (metis mset_subset_eq_add_left add_mset_add_single)
next
  case (raise_locked \<sigma> i p url ls link)
  from claimed_goto[OF raise_locked(1), of "Finishing url" "shared \<sigma>"] raise_locked(2) show ?case
    by (auto simp add: grows_def) (metis mset_subset_eq_add_left add_mset_add_single)
next
  case (finish \<sigma> i url s')
  from finish(2) have "items s' = items (shared \<sigma>)" "fetched s' = fetched (shared \<sigma>)" "urls s' = urls (shared \<sigma>)"
    by (auto simp: task_done_def Let_def split: if_splits)
  with claimed_goto[OF finish(1), of Idle s'] show ?case
    by (simp add: grows_def)
next
  case (die \<sigma> i url e)
  from claimed_goto[OF die(1), of Dead "shared \<sigma>"] show ?case by (simp add: grows_def)
qed

lemma next_step_sound:
  "next_step L delay \<sigma> i p c = Some \<sigma>' \<Longrightarrow> at_place \<sigma> i p \<Longrightarrow> step L delay \<sigma> \<sigma>'"
proof (induction L delay \<sigma> i p c rule: next_step.induct)
  case (1 L delay \<sigma> i)
  then show ?case
    by (auto split: option.splits intro: step.get)
next
  case (2 L delay \<sigma> i url)
  then show ?case
    by (cases "is_visited url (urls (shared \<sigma>))")
       (auto intro: step.visited step.unvisited)
next
  case (3 L delay \<sigma> i url)
  then show ?case
    by (auto split: sum.splits intro: step.skip_done step.skip_raise)
next
  case (4 L delay \<sigma> i url resp ls)
  then have at: "at_place \<sigma> i (Fetching url)" by simp
  show ?case
  proof (cases "fetch delay resp")
    case (Inl e)
    with 4 step.fetch_none[OF at, of delay resp e L] show ?thesis by (simp add: Let_def)
  next
    case (Inr html)
    show ?thesis
    proof (cases "html = []")
      case True
      with Inr 4 step.fetch_none[OF at, of delay resp undefined L] show ?thesis by (simp add: Let_def)
    next
      case False
      show ?thesis
      proof (cases "parse_links L html url")
        case (Inl e)
        with Inr False 4 step.fetch_none[OF at, of delay resp e L] show ?thesis
          by (simp add: Let_def)
      next
        case links: (Inr links)
        with Inr False 4 have ls: "set ls = links" "distinct ls"
          and \<sigma>': "\<sigma>' = goto \<sigma> i (Marking url ls)
             ((shared \<sigma>)\<lparr>fetched := fetched (shared \<sigma>) @ [(url, fetch delay resp)]\<rparr>)"
          by (auto simp: Let_def split: if_splits)
        from step.fetch_links[OF at Inr False links ls] \<sigma>' show ?thesis by simp
      qed
    qed
  qed
next
  case (5 L delay \<sigma> i url ls)
  then show ?case by (auto split: if_splits intro: step.mark)
next
  case (6 L delay \<sigma> i url ls)
  then show ?case by (auto split: if_splits intro: step.acquire)
next
  case (7 L delay \<sigma> i url)
  then show ?case by (auto intro: step.release)
next
  case (8 L delay \<sigma> i url link ls)
  then show ?case
    by (cases "insert_or_ignore link (urls (shared \<sigma>))")
       (auto split: if_splits intro: step.insert_new step.insert_ignored)
next
  case (9 L delay \<sigma> i url link ls)
  then show ?case by (auto intro: step.put)
next
  case (10 L delay \<sigma> i url)
  then show ?case
    by (auto split: sum.splits intro: step.finish step.die)
next
  case (11 L delay \<sigma> i url)
  from step.raise[OF 11(2), of url] 11(1) show ?case by simp
next
  case (12 L delay \<sigma> i url ls)
  from step.raise[OF 12(2), of url ls] 12(1) show ?case by simp
next
  case (13 L delay \<sigma> i url ls)
  from step.raise[OF 13(2), of url ls] 13(1) show ?case by simp
next
  case (14 L delay \<sigma> i url ls)
  from step.raise_locked[OF 14(2), of url ls] 14(1) show ?case by simp
next
  case (15 L delay \<sigma> i url link ls)
  from step.raise_locked[OF 15(2), of url ls link] 15(1) show ?case by simp
qed simp_all

lemma fire_sound: "fire L delay ev \<sigma> = Some \<sigma>' \<Longrightarrow> step L delay \<sigma> \<sigma>'"
  by (auto simp: fire_def at_place_def split: if_splits intro: next_step_sound)

lemma schedule_sound: "schedule L delay evs \<sigma> = Some \<sigma>' \<Longrightarrow> (step L delay)\<^sup>*\<^sup>* \<sigma> \<sigma>'"
proof (induction evs arbitrary: \<sigma>)
  case Nil
  then show ?case by simp
next
  case (Cons ev evs)
  then obtain \<sigma>1 where 1: "fire L delay ev \<sigma> = Some \<sigma>1" and 2: "schedule L delay evs \<sigma>1 = Some \<sigma>'"
    by (auto split: option.splits)
  from fire_sound[OF 1] Cons.IH[OF 2] show ?case by (rule converse_rtranclp_into_rtranclp)
qed

lemma grows_unique:
  assumes "grows \<sigma> \<sigma>'" and "unique_claims \<sigma>"
  shows "unique_claims \<sigma>'"
proof -
  from assms(1) have keep: "\<And>u. has_row u (urls (shared \<sigma>)) \<Longrightarrow> has_row u (urls (shared \<sigma>'))"
    by (simp add: grows_def)
  from assms(1) consider
      (less) "claimed \<sigma>' \<subseteq># claimed \<sigma>"
    | (more) l where "claimed \<sigma>' = add_mset l (claimed \<sigma>)" "\<not> has_row l (urls (shared \<sigma>))"
        "has_row l (urls (shared \<sigma>'))"
    by (auto simp: grows_def)
  then show ?thesis
  proof cases
    case less
    have "count (claimed \<sigma>') u \<le> 1" for u
      using mset_subset_eq_count[OF less, of u] assms(2) by (auto simp: unique_claims_def intro: order_trans)
    moreover have "has_row u (urls (shared \<sigma>'))" if "u \<in># claimed \<sigma>'" for u
      using that mset_subset_eqD[OF less] assms(2) keep by (auto simp: unique_claims_def)
    ultimately show ?thesis by (simp add: unique_claims_def)
  next
    case more
    from more(2) assms(2) have "l \<notin># claimed \<sigma>" by (auto simp: unique_claims_def)
    then have "count (claimed \<sigma>) l = 0" by (simp add: not_in_iff)
    with more(1) assms(2) have "count (claimed \<sigma>') u \<le> 1" for u
      by (auto simp: unique_claims_def)
    moreover have "has_row u (urls (shared \<sigma>'))" if "u \<in># claimed \<sigma>'" for u
      using that more assms(2) keep by (auto simp: unique_claims_def)
    ultimately show ?thesis by (simp add: unique_claims_def)
  qed
qed

lemma sum_list_replicate_empty: "sum_list (replicate T ({#} :: 'a multiset)) = {#}"
  by (induction T) simp_all

lemma start_unique: "unique_claims (start T t seed)"
  by (simp add: unique_claims_def claimed_def start_def opened_def add_seed_def queue_put_def
      sum_list_replicate_empty has_row_insert)

lemma run_unique: "run L delay T t seed \<sigma> \<Longrightarrow> unique_claims \<sigma>"
  unfolding run_def
  by (induction rule: rtranclp_induct) (auto intro: start_unique grows_unique step_grows)

lemma unique_claims_distinct_fetched:
  assumes "unique_claims \<sigma>"
  shows "distinct (map fst (fetched (shared \<sigma>)))"
proof -
  define xs where "xs = map fst (fetched (shared \<sigma>))"
  have le: "count (mset xs) u \<le> 1" for u
  proof -
    have "count (mset xs) u \<le> count (claimed \<sigma>) u"
      by (simp add: claimed_def xs_def)
    also have "\<dots> \<le> 1" using assms by (simp add: unique_claims_def)
    finally show ?thesis .
  qed
  have "count (mset xs) u = (if u \<in> set xs then 1 else 0)" for u
  proof (cases "u \<in> set xs")
    case True
    then have "0 < count (mset xs) u" by (simp add: count_greater_zero_iff)
    with le[of u] have "count (mset xs) u = 1" by linarith
    with True show ?thesis by simp
  next
    case False
    then show ?thesis by simp
  qed
  then have "distinct xs" by (simp add: distinct_count_atmost_1)
  then show ?thesis by (simp add: xs_def)
qed

lemma at_place_goto:
  "at_place (goto \<sigma> i p s) j q = (j < length (threads \<sigma>) \<and> (if j = i then p = q else threads \<sigma> ! j = q))"
  by (auto simp: at_place_def goto_def)

lemma at_place_lock [simp]: "at_place (\<sigma>\<lparr>lock := b\<rparr>) j q = at_place \<sigma> j q"
  by (simp add: at_place_def)

lemma shared_lock [simp]: "shared (\<sigma>\<lparr>lock := b\<rparr>) = shared \<sigma>"
  by simp









section \<open>Properties of one iteration of the worker\<close>

lemma task_done_cases:
  "(unfinished_tasks s < 1 \<and> task_done s = Inl ValueError) \<or>
   (1 \<le> unfinished_tasks s \<and> task_done s = Inr (s\<lparr>unfinished_tasks := unfinished_tasks s - 1\<rparr>))"
  by (auto simp: task_done_def Let_def)

lemma urls_task_done: "task_done s = Inr s' \<Longrightarrow> urls s' = urls s \<and> items s' = items s \<and> fetched s' = fetched s"
  by (auto simp: task_done_def Let_def split: if_splits)

text \<open>What the \<^verbatim>\<open>try\<close> block leaves in the table.\<close>

lemma urls_try_block:
  "urls (fst (try_block L delay order resp url s)) = urls s \<or>
   (\<exists>ls. urls (fst (try_block L delay order resp url s)) =
          urls (enqueue_new ls (mark_visited url (s\<lparr>fetched := fetched s @ [(url, fetch delay resp)]\<rparr>))))"
  by (auto simp: try_block_def Let_def dest: urls_task_done split: sum.splits)

lemma urls_worker_body:
  "urls (fst (worker_body L delay order resp url s)) = urls (fst (try_block L delay order resp url s))"
  by (auto simp: worker_body_def dest: urls_task_done split: prod.splits sum.splits)

lemma frontier_worker_body:
  "(distinct (map fst (urls s)) \<longrightarrow> distinct (map fst (urls (fst (worker_body L delay order resp url s))))) \<and>
   (has_row u (urls s) \<longrightarrow> has_row u (urls (fst (worker_body L delay order resp url s)))) \<and>
   (is_visited u (urls s) \<longrightarrow> is_visited u (urls (fst (worker_body L delay order resp url s))))"
  using urls_try_block[of L delay order resp url s]
  by (auto simp: urls_worker_body has_row_enqueue_new is_visited_enqueue_new mark_visited_def
      has_row_update_visited is_visited_update map_fst_update_visited intro!: distinct_enqueue_new)

lemma step_urls:
  "step L delay \<sigma> \<sigma>' \<Longrightarrow>
   urls (shared \<sigma>') = urls (shared \<sigma>) \<or>
   (\<exists>link. urls (shared \<sigma>') = fst (insert_or_ignore link (urls (shared \<sigma>)))) \<or>
   (\<exists>url. urls (shared \<sigma>') = update_visited url (urls (shared \<sigma>)))"
proof (induction rule: step.induct)
  case (get \<sigma> i url s')
  then show ?case by (auto simp: queue_get_def split: list.splits)
next
  case (skip_done \<sigma> i url s')
  then show ?case by (auto dest: urls_task_done)
next
  case (insert_new \<sigma> i url link ls t rowcount)
  then show ?case by (metis crawler.select_convs(1) crawler.surjective crawler.update_convs(1) fst_conv shared_goto)
next
  case (insert_ignored \<sigma> i url link ls t rowcount)
  then show ?case by (metis crawler.select_convs(1) crawler.surjective crawler.update_convs(1) fst_conv shared_goto)
next
  case (finish \<sigma> i url s')
  then show ?case by (auto dest: urls_task_done)
qed (auto simp: mark_visited_def queue_put_def)

lemma worker_body_visited:
  assumes "is_visited url (urls s)"
  shows "worker_body L delay order resp url s =
           (if 2 \<le> unfinished_tasks s then (s\<lparr>unfinished_tasks := unfinished_tasks s - 2\<rparr>, Skipped, None)
            else if unfinished_tasks s = 1 then (s\<lparr>unfinished_tasks := 0\<rparr>, Skipped, Some ValueError)
            else (s, Caught ValueError, Some ValueError))"
  using assms by (auto simp: worker_body_def try_block_def task_done_def Let_def)

lemma worker_body_unvisited:
  assumes "\<not> is_visited url (urls s)"
  shows "worker_body L delay order resp url s =
           (let s1 = s\<lparr>fetched := fetched s @ [(url, fetch delay resp)]\<rparr>;
                (s2, rep) =
                  (case fetch delay resp of
                     Inl e \<Rightarrow> (s1, Caught e)
                   | Inr html \<Rightarrow>
                       if html = [] then (s1, Failed)
                       else (case parse_links L html url of
                               Inl e \<Rightarrow> (s1, Caught e)
                             | Inr links \<Rightarrow>
                                 (enqueue_new (order links) (mark_visited url s1), Crawled (card links))))
            in if 1 \<le> unfinished_tasks s2
               then (s2\<lparr>unfinished_tasks := unfinished_tasks s2 - 1\<rparr>, rep, None)
               else (s2, rep, Some ValueError))"
  using assms
  by (auto simp: worker_body_def try_block_def task_done_def Let_def split: sum.splits prod.splits)


text \<open>The queue counts what it holds and what is in work: \<^verbatim>\<open>put\<close> raises both sides.\<close>

lemma in_work_enqueue_new:
  "unfinished_tasks (enqueue_new ls s) - int (length (items (enqueue_new ls s))) =
     unfinished_tasks s - int (length (items s)) \<and>
   unfinished_tasks s \<le> unfinished_tasks (enqueue_new ls s)"
proof (induction ls arbitrary: s)
  case Nil
  show ?case by simp
next
  case (Cons l ls)
  show ?case
    using Cons.IH[of s] Cons.IH[of "queue_put l (s\<lparr>urls := urls s @ [(l, 0)]\<rparr>)"]
    unfolding enqueue_new_Cons by (auto simp: queue_put_def)
qed

lemma in_work_try_block:
  assumes "\<not> is_visited url (urls s)"
  shows "unfinished_tasks (fst (try_block L delay order resp url s)) -
           int (length (items (fst (try_block L delay order resp url s)))) =
         unfinished_tasks s - int (length (items s)) \<and>
         unfinished_tasks s \<le> unfinished_tasks (fst (try_block L delay order resp url s))"
proof -
  let ?s1 = "s\<lparr>fetched := fetched s @ [(url, fetch delay resp)]\<rparr>"
  have "fst (try_block L delay order resp url s) = ?s1 \<or>
        (\<exists>ls. fst (try_block L delay order resp url s) = enqueue_new ls (mark_visited url ?s1))"
    using assms by (auto simp: try_block_def Let_def split: sum.splits)
  then show ?thesis
  proof
    assume "fst (try_block L delay order resp url s) = ?s1"
    then show ?thesis by simp
  next
    assume "\<exists>ls. fst (try_block L delay order resp url s) = enqueue_new ls (mark_visited url ?s1)"
    then obtain ls where "fst (try_block L delay order resp url s) = enqueue_new ls (mark_visited url ?s1)" ..
    with in_work_enqueue_new[of ls "mark_visited url ?s1"] show ?thesis
      by (simp add: mark_visited_def)
  qed
qed

text \<open>
  An iteration that does not take the skip signals completion once: with the item counted
  in \<^verbatim>\<open>unfinished_tasks\<close>, no exception leaves the worker and the number of items in
  work falls by one.
\<close>

lemma unvisited_url_signals_completion_once:
  assumes "\<not> is_visited url (urls s)" and "1 \<le> unfinished_tasks s"
    and "worker_body L delay order resp url s = (s', rep, exc)"
  shows "exc = None \<and>
         unfinished_tasks s' - int (length (items s')) =
           unfinished_tasks s - int (length (items s)) - 1"
proof -
  obtain s1 rep1 where t: "try_block L delay order resp url s = (s1, rep1)"
    by (cases "try_block L delay order resp url s") auto
  from in_work_try_block[OF assms(1), of L delay order resp] t
  have 1: "unfinished_tasks s1 - int (length (items s1)) = unfinished_tasks s - int (length (items s))"
    and 2: "unfinished_tasks s \<le> unfinished_tasks s1" by simp_all
  from 2 assms(2) have "1 \<le> unfinished_tasks s1" by linarith
  then have "task_done s1 = Inr (s1\<lparr>unfinished_tasks := unfinished_tasks s1 - 1\<rparr>)"
    by (simp add: task_done_def Let_def)
  with assms(3) t 1 show ?thesis by (auto simp: worker_body_def)
qed

text \<open>
  So a queue that holds one unvisited seed, whose iteration leaves nothing in the queue, is
  drained after that one iteration.
\<close>

lemma lone_seed_drains:
  assumes "\<not> is_visited seed t"
    and "worker_iteration L delay order resp (add_seed seed (opened t)) = Some (s', rep, exc)"
    and "items s' = []"
  shows "exc = None \<and> drained s'"
proof -
  let ?s = "(add_seed seed (opened t))\<lparr>items := []\<rparr>"
  from assms(2) have w: "worker_body L delay order resp seed ?s = (s', rep, exc)"
    by (simp add: worker_iteration_def queue_get_def add_seed_def queue_put_def opened_def)
  have nv: "\<not> is_visited seed (urls ?s)"
    using assms(1) by (simp add: add_seed_def queue_put_def opened_def is_visited_insert)
  have "1 \<le> unfinished_tasks ?s" by (simp add: add_seed_def queue_put_def opened_def)
  from unvisited_url_signals_completion_once[OF nv this w] assms(3) show ?thesis
    by (simp add: drained_def add_seed_def queue_put_def opened_def)
qed

text \<open>Callers that insert under the lock: how many of those that insert \<open>u\<close> see a new row.\<close>

lemma new_inserts_count:
  "length (filter (\<lambda>(v, rowcount). v = u \<and> 0 < rowcount) (zip us (insert_rowcounts us t))) =
     (if has_row u t \<or> u \<notin> set us then 0 else 1)"
proof (induction us arbitrary: t)
  case Nil
  show ?case by simp
next
  case (Cons v us)
  show ?case
  proof (cases "has_row v t")
    case True
    then show ?thesis using Cons.IH[of t] by (auto simp: insert_or_ignore_def)
  next
    case False
    have row: "has_row u (t @ [(v, 0)]) = (u = v \<or> has_row u t)"
      by (auto simp: has_row_def)
    from False show ?thesis using Cons.IH[of "t @ [(v, 0)]"]
      by (auto simp: insert_or_ignore_def row)
  qed
qed

section \<open>Properties of link extraction\<close>

lemma parse_links_loop_result:
  "parse_links_loop L base_url as acc = Inr links \<Longrightarrow>
   links = acc \<union> {href. \<exists>a\<in>set as. urljoin L base_url a = Inr href \<and>
                       (\<exists>p. urlparse L href = Inr p \<and> (scheme p = ''http'' \<or> scheme p = ''https''))}"
proof (induction as arbitrary: acc)
  case Nil
  then show ?case by simp
next
  case (Cons a as)
  from Cons.prems obtain href p where j: "urljoin L base_url a = Inr href" and u: "urlparse L href = Inr p"
    by (auto split: sum.splits)
  let ?acc = "if scheme p = ''http'' \<or> scheme p = ''https'' then insert href acc else acc"
  from Cons.prems j u have "parse_links_loop L base_url as ?acc = Inr links"
    by (simp split: if_splits)
  from Cons.IH[OF this] j u show ?case by (auto split: if_splits)
qed


section \<open>The model on the example\<close>

lemma example_links:
  "parse_links example_lib example_page ''http://x.onion/'' =
     Inr {''http://x.onion/p1'', ''http://other.onion/p2'', ''http://x.onion/#frag'', ''https://example.com/''}"
  by code_simp

lemma example_anchors:
  "find_all_a example_lib example_page =
     [''/p1'', ''http://other.onion/p2'', ''#frag'', ''https://example.com/'', ''mailto:a@x.onion'', ''/p1'']"
  by code_simp




lemma example_worker_body:
  "worker_body example_lib 5 example_order (Page example_page) ''http://x.onion/'' example_crawler =
     (example_crawled, Crawled 4, None)"
  by code_simp


lemma example_schedule_final:
  "schedule example_lib 5 example_schedule (start 2 [] ''http://x.onion/'') = Some example_final"
  by code_simp

lemma example_run: "run example_lib 5 2 [] ''http://x.onion/'' example_final"
  unfolding run_def by (rule schedule_sound) (rule example_schedule_final)


section \<open>The claims\<close>

subsection \<open>C1: no URL is fetched twice\<close>

text \<open>
  Claim C1. In every run started from one seed, with any number \<open>T\<close> of worker threads,
  any table left by earlier runs, any library, any responses of the transport and any
  interleaving of the threads, the URLs passed to \<^verbatim>\<open>fetch\<close> are pairwise distinct: no
  URL is fetched twice.
\<close>

theorem no_url_fetched_twice:
  "run L delay T t seed \<sigma> \<Longrightarrow> distinct (map fst (fetched (shared \<sigma>)))"
  by (rule unique_claims_distinct_fetched) (rule run_unique)

theorem no_url_fetched_twice_witness:
  "run example_lib 5 2 [] ''http://x.onion/'' example_final \<and>
   map fst (fetched (shared example_final)) = [''http://x.onion/'', ''http://x.onion/p1''] \<and>
   distinct (map fst (fetched (shared example_final)))"
  using no_url_fetched_twice[OF example_run] example_run by (simp add: example_final_def)

subsection \<open>C2: insert if absent\<close>

text \<open>
  Claim C2. \<^verbatim>\<open>INSERT OR IGNORE\<close> reports a new row (\<^verbatim>\<open>rowcount > 0\<close>) if and only if
  the URL had no row; when it had one, the table is left as it was. \<^verbatim>\<open>add_seed\<close> and
  \<^verbatim>\<open>enqueue_new\<close> change the table by this statement alone, and \<^verbatim>\<open>enqueue_new\<close>
  pushes the link exactly when the row is new. Among callers that insert under the lock,
  in any order, the ones that insert a URL \<open>u\<close> see one new row when \<open>u\<close> had no row
  (and at least one of them inserts it), and none otherwise.
\<close>

theorem insert_or_ignore_new_iff_absent:
  "(0 < snd (insert_or_ignore u t) \<longleftrightarrow> \<not> has_row u t) \<and>
   (has_row u t \<longrightarrow> fst (insert_or_ignore u t) = t) \<and>
   urls (add_seed u s) = fst (insert_or_ignore u (urls s)) \<and>
   urls (enqueue_new [u] s) = fst (insert_or_ignore u (urls s)) \<and>
   items (enqueue_new [u] s) = (if has_row u (urls s) then items s else items s @ [u]) \<and>
   length (filter (\<lambda>(v, rowcount). v = u \<and> 0 < rowcount) (zip us (insert_rowcounts us t))) =
     (if has_row u t \<or> u \<notin> set us then 0 else 1)"
  by (simp add: new_inserts_count) (simp add: insert_or_ignore_def add_seed_def queue_put_def)

theorem insert_or_ignore_new_iff_absent_witness:
  "has_row ''http://x.onion/'' [(''http://x.onion/'', 1)] \<and>
   fst (insert_or_ignore ''http://x.onion/'' [(''http://x.onion/'', 1)]) = [(''http://x.onion/'', 1)] \<and>
   snd (insert_or_ignore ''http://x.onion/'' [(''http://x.onion/'', 1)]) = 0 \<and>
   \<not> has_row ''http://x.onion/a'' [(''http://x.onion/'', 1)] \<and>
   snd (insert_or_ignore ''http://x.onion/a'' [(''http://x.onion/'', 1)]) = 1 \<and>
   insert_rowcounts [''http://x.onion/a'', ''http://x.onion/b'', ''http://x.onion/a'', ''http://x.onion/a'']
     [(''http://x.onion/'', 1)] = [1, 1, 0, 0] \<and>
   length (filter (\<lambda>(v, rowcount). v = ''http://x.onion/a'' \<and> 0 < rowcount)
     (zip [''http://x.onion/a'', ''http://x.onion/b'', ''http://x.onion/a'', ''http://x.onion/a'']
        (insert_rowcounts [''http://x.onion/a'', ''http://x.onion/b'', ''http://x.onion/a'', ''http://x.onion/a'']
           [(''http://x.onion/'', 1)]))) = 1"
  using insert_or_ignore_new_iff_absent
    [of "''http://x.onion/''" "[(''http://x.onion/'', 1)]" "opened []" "[]"]
    insert_or_ignore_new_iff_absent
    [of "''http://x.onion/a''" "[(''http://x.onion/'', 1)]" "opened []"
        "[''http://x.onion/a'', ''http://x.onion/b'', ''http://x.onion/a'', ''http://x.onion/a'']"]
  by (simp add: insert_or_ignore_def has_row_def)

subsection \<open>C3: completion is signalled twice for a visited URL\<close>

text \<open>
  Claim C3 says that the worker signals completion exactly once for every popped URL. It
  does for a URL that is not visited (\<open>unvisited_url_signals_completion_once\<close>,
  \<open>lone_seed_drains\<close>). For a visited URL the worker calls \<^verbatim>\<open>task_done\<close> before
  \<^verbatim>\<open>continue\<close> and again in \<^verbatim>\<open>finally\<close> (\<open>worker_body_visited\<close>). On a table
  that holds the seed as visited, as a second run on the same database does, the second
  call raises \<^verbatim>\<open>ValueError\<close> and ends the thread; with other items in work the counter
  falls by two.
\<close>

theorem visited_url_signals_completion_twice:
  "worker_iteration example_lib 5 example_order HTTPError
     (add_seed ''http://x.onion/'' (opened [(''http://x.onion/'', 1)])) =
     Some (opened [(''http://x.onion/'', 1)], Skipped, Some ValueError) \<and>
   schedule example_lib 5 [(0, Proceed), (0, Proceed), (0, Proceed), (0, Proceed)]
     (start 1 [(''http://x.onion/'', 1)] ''http://x.onion/'') =
     Some \<lparr>shared = opened [(''http://x.onion/'', 1)], lock = False, threads = [Dead]\<rparr> \<and>
   worker_body example_lib 5 example_order HTTPError ''http://other.onion/p2''
     (example_crawler\<lparr>unfinished_tasks := 3\<rparr>) = (example_crawler, Skipped, None)"
  by code_simp

subsection \<open>C4: the seed is pushed whether or not it is new\<close>

text \<open>
  Claim C4 says that a seed already in the store is not pushed. \<^verbatim>\<open>add_seed\<close> does not
  read \<^verbatim>\<open>rowcount\<close>: on a table that holds the seed, the insert reports no new row and
  the seed is pushed all the same.
\<close>

theorem add_seed_pushes_present_seed:
  "has_row ''http://x.onion/'' (urls (opened [(''http://x.onion/'', 1)])) \<and>
   snd (insert_or_ignore ''http://x.onion/'' (urls (opened [(''http://x.onion/'', 1)]))) = 0 \<and>
   items (add_seed ''http://x.onion/'' (opened [(''http://x.onion/'', 1)])) = [''http://x.onion/'']"
  by (simp add: add_seed_def queue_put_def opened_def insert_or_ignore_def has_row_def)

text \<open>
  Claim C4, amended. \<^verbatim>\<open>add_seed\<close> inserts the seed if it is absent and pushes it onto
  the queue in every case, counting it as unfinished.
\<close>

theorem add_seed_always_pushes:
  "urls (add_seed u s) = fst (insert_or_ignore u (urls s)) \<and>
   items (add_seed u s) = items s @ [u] \<and>
   unfinished_tasks (add_seed u s) = unfinished_tasks s + 1 \<and>
   fetched (add_seed u s) = fetched s"
  by (simp add: add_seed_def queue_put_def)

subsection \<open>C5: fragments are kept\<close>

text \<open>
  Claim C5 says that normalisation strips the fragment. \<^verbatim>\<open>parse_links\<close> normalises
  with \<^verbatim>\<open>urljoin\<close> alone, and \<^verbatim>\<open>urljoin\<close> keeps the fragment of the reference:
  \<^verbatim>\<open>#frag\<close> against \<^verbatim>\<open>http://x.onion/c/d\<close> gives \<^verbatim>\<open>http://x.onion/c/d#frag\<close>,
  and the links of the example page hold \<^verbatim>\<open>http://x.onion/#frag\<close>.
\<close>

theorem fragment_is_not_stripped:
  "urljoin example_lib ''http://x.onion/c/d'' ''#frag'' = Inr ''http://x.onion/c/d#frag'' \<and>
   find_all_a example_lib example_page =
     [''/p1'', ''http://other.onion/p2'', ''#frag'', ''https://example.com/'', ''mailto:a@x.onion'', ''/p1''] \<and>
   parse_links example_lib example_page ''http://x.onion/'' =
     Inr {''http://x.onion/p1'', ''http://other.onion/p2'', ''http://x.onion/#frag'', ''https://example.com/''}"
  by code_simp

text \<open>
  Claim C5, amended. Every URL that \<^verbatim>\<open>parse_links\<close> returns is the result of
  \<^verbatim>\<open>urljoin\<close> for the \<^verbatim>\<open>href\<close> of an anchor of the page, as \<^verbatim>\<open>urljoin\<close> returned
  it: nothing is stripped from it, a fragment included.
\<close>

theorem parse_links_adds_urljoin_result:
  assumes "parse_links L html base_url = Inr links" and "href \<in> links"
  shows "\<exists>a\<in>set (find_all_a L html). urljoin L base_url a = Inr href"
  using parse_links_loop_result[OF assms(1)[unfolded parse_links_def]] assms(2) by auto

theorem parse_links_adds_urljoin_result_witness:
  "parse_links example_lib example_page ''http://x.onion/'' =
     Inr {''http://x.onion/p1'', ''http://other.onion/p2'', ''http://x.onion/#frag'', ''https://example.com/''} \<and>
   ''http://x.onion/#frag'' \<in> {''http://x.onion/p1'', ''http://other.onion/p2'', ''http://x.onion/#frag'', ''https://example.com/''} \<and>
   (\<exists>a\<in>set (find_all_a example_lib example_page).
      urljoin example_lib ''http://x.onion/'' a = Inr ''http://x.onion/#frag'')"
  using parse_links_adds_urljoin_result[OF example_links, of "''http://x.onion/#frag''"] example_links
  by simp

subsection \<open>C6: a failed fetch leaves the URL unvisited\<close>



subsection \<open>C7: a crawled page is marked and its new links are pushed, unless extraction raises\<close>




subsection \<open>C8: the invariant of the frontier store\<close>

text \<open>
  Claim C8. \<^verbatim>\<open>add_seed\<close>, \<^verbatim>\<open>mark_visited\<close>, \<^verbatim>\<open>enqueue_new\<close>, an iteration of the
  worker and every step of a worker thread keep the keys of the table distinct, keep every
  row, and keep every visited row visited.
\<close>

theorem frontier_invariant_preserved:
  assumes "s' \<in> {add_seed url s, mark_visited url s, enqueue_new ls s,
                 fst (worker_body L delay order resp url s)} \<or>
           (\<exists>\<sigma> \<sigma>'. step L delay \<sigma> \<sigma>' \<and> s = shared \<sigma> \<and> s' = shared \<sigma>')"
  shows "(distinct (map fst (urls s)) \<longrightarrow> distinct (map fst (urls s'))) \<and>
         (has_row u (urls s) \<longrightarrow> has_row u (urls s')) \<and>
         (is_visited u (urls s) \<longrightarrow> is_visited u (urls s'))"
proof -
  have "?thesis" if "s' = add_seed url s"
    using that by (simp add: add_seed_def queue_put_def distinct_insert has_row_insert is_visited_insert)
  moreover have "?thesis" if "s' = mark_visited url s"
    using that by (simp add: mark_visited_def map_fst_update_visited has_row_update_visited is_visited_update)
  moreover have "?thesis" if "s' = enqueue_new ls s"
    using that by (simp add: distinct_enqueue_new has_row_enqueue_new is_visited_enqueue_new)
  moreover have "?thesis" if "s' = fst (worker_body L delay order resp url s)"
    using that frontier_worker_body[of s L delay order resp url u] by simp
  moreover have "?thesis" if "step L delay \<sigma> \<sigma>'" "s = shared \<sigma>" "s' = shared \<sigma>'" for \<sigma> \<sigma>'
    using step_urls[OF that(1)] that(2,3)
    by (auto simp: distinct_insert has_row_insert is_visited_insert map_fst_update_visited
        has_row_update_visited is_visited_update)
  ultimately show ?thesis using assms by auto
qed

theorem frontier_invariant_preserved_witness:
  "example_crawled = fst (worker_body example_lib 5 example_order (Page example_page) ''http://x.onion/'' example_crawler) \<and>
   distinct (map fst (urls example_crawler)) \<and> distinct (map fst (urls example_crawled)) \<and>
   has_row ''http://x.onion/'' (urls example_crawler) \<and> has_row ''http://x.onion/'' (urls example_crawled) \<and>
   is_visited ''http://other.onion/p2'' (urls example_crawler) \<and>
   is_visited ''http://other.onion/p2'' (urls example_crawled)"
  using frontier_invariant_preserved
    [of example_crawled "''http://x.onion/''" example_crawler "[]" example_lib 5 example_order
        "Page example_page" "''http://x.onion/''"]
    frontier_invariant_preserved
    [of example_crawled "''http://x.onion/''" example_crawler "[]" example_lib 5 example_order
        "Page example_page" "''http://other.onion/p2''"]
    example_worker_body
  by (simp add: example_crawler_def has_row_def is_visited_def select_visited_def)

subsection \<open>C9: link extraction filters by scheme alone, when it returns\<close>




subsection \<open>C10: a URL without a row is fetched\<close>

text \<open>
  Claim C10. When the \<^verbatim>\<open>SELECT\<close> finds no row for the popped URL, the worker neither
  skips it nor raises on the missing row: it calls \<^verbatim>\<open>fetch\<close> for it, and what the
  iteration reports is what the fetch and the extraction give.
\<close>

theorem url_without_row_is_fetched:
  assumes "select_visited url (urls s) = None"
    and "worker_body L delay order resp url s = (s', rep, exc)"
  shows "\<not> is_visited url (urls s) \<and>
         fetched s' = fetched s @ [(url, fetch delay resp)] \<and>
         rep = (case fetch delay resp of
                  Inl e \<Rightarrow> Caught e
                | Inr html \<Rightarrow>
                    if html = [] then Failed
                    else (case parse_links L html url of
                            Inl e \<Rightarrow> Caught e
                          | Inr links \<Rightarrow> Crawled (card links)))"
proof -
  from assms(1) have nv: "\<not> is_visited url (urls s)" by (simp add: is_visited_def)
  from assms(2) show ?thesis
    unfolding worker_body_unvisited[OF nv]
    by (auto simp: nv Let_def fetched_enqueue_new mark_visited_def split: sum.splits if_splits)
qed

theorem url_without_row_is_fetched_witness:
  "select_visited ''http://x.onion/a'' (urls example_crawler) = None \<and>
   fetched (fst (worker_body example_lib 5 example_order HTTPError ''http://x.onion/a'' example_crawler)) =
     [(''http://x.onion/a'', Inr [])] \<and>
   fst (snd (worker_body example_lib 5 example_order HTTPError ''http://x.onion/a'' example_crawler)) = Failed"
proof -
  have n: "select_visited ''http://x.onion/a'' (urls example_crawler) = None"
    by (simp add: example_crawler_def select_visited_def)
  obtain s' rep exc where w:
    "worker_body example_lib 5 example_order HTTPError ''http://x.onion/a'' example_crawler = (s', rep, exc)"
    by (cases "worker_body example_lib 5 example_order HTTPError ''http://x.onion/a'' example_crawler") auto
  from url_without_row_is_fetched[OF n w] n w show ?thesis
    by (simp add: fetch_def example_crawler_def)
qed

end
